theory Spec2Isabelle
  imports Main
begin

section \<open>The tokenizer engine of langley\<close>

text \<open>
  A shallow embedding of package \<^verbatim>\<open>tokenizer\<close>. A Go string is a sequence of bytes, here
  a \<^typ>\<open>string\<close> (a list of 8-bit characters); a rune is an \<^verbatim>\<open>int32\<close> and \<^verbatim>\<open>Pos\<close> is a Go
  \<^verbatim>\<open>int\<close>, both modelled as \<^typ>\<open>int\<close> (no value of the engine comes near the end of the
  machine range: runes are below \<open>2^21\<close>, positions are bounded by the length of the
  input, the line counter by the number of operations). A method that mutates the
  tokenizer takes the state and returns the new one; a runtime panic of Go is a value
  \<open>Inl e\<close>; a loop that may run for ever is a function into \<open>option\<close>, with \<open>None\<close> for
  the run that does not end.
\<close>

subsection \<open>The standard library functions the engine calls\<close>

datatype error =
    SliceOutOfRange
  | IndexOutOfRange
  | NilDereference
  | SendOnClosedChannel
  | CloseOfClosedChannel

definition RuneError :: int where
  "RuneError = 0xFFFD"

definition eof :: int where
  "eof = - 1"

definition newline :: int where
  "newline = 10"

text \<open>
  \<^verbatim>\<open>utf8.DecodeRuneInString\<close> of the Go standard library: the rune at the front of the
  string and its width in bytes; \<open>(RuneError, 0)\<close> for the empty string and
  \<open>(RuneError, 1)\<close> for an encoding that is invalid or cut short. The library reads the
  width and the range accepted for the second byte off a table indexed by the first byte;
  \<open>runeSize\<close>, \<open>acceptLo\<close> and \<open>acceptHi\<close> are that table. Its masks and shifts are
  written arithmetically: \<^verbatim>\<open>b & 0x3F\<close> is \<open>b mod 64\<close>, \<^verbatim>\<open>x << 6\<close> is \<open>x * 64\<close>, and the
  \<^verbatim>\<open>|\<close> of values on disjoint bits is their sum.
\<close>

definition runeSize :: "int \<Rightarrow> nat" where
  "runeSize s0 = (if s0 < 0xE0 then 2 else if s0 < 0xF0 then 3 else 4)"

definition acceptLo :: "int \<Rightarrow> int" where
  "acceptLo s0 = (if s0 = 0xE0 then 0xA0 else if s0 = 0xF0 then 0x90 else 0x80)"

definition acceptHi :: "int \<Rightarrow> int" where
  "acceptHi s0 = (if s0 = 0xED then 0x9F else if s0 = 0xF4 then 0x8F else 0xBF)"

definition byteAt :: "string \<Rightarrow> nat \<Rightarrow> int" where
  "byteAt s i = of_char (s ! i)"

definition DecodeRuneInString :: "string \<Rightarrow> int \<times> nat" where
  "DecodeRuneInString s =
     (if length s < 1 then (RuneError, 0)
      else if byteAt s 0 < 0x80 then (byteAt s 0, 1)
      else if byteAt s 0 < 0xC2 \<or> 0xF4 < byteAt s 0 then (RuneError, 1)
      else if length s < runeSize (byteAt s 0) then (RuneError, 1)
      else if byteAt s 1 < acceptLo (byteAt s 0) \<or> acceptHi (byteAt s 0) < byteAt s 1
        then (RuneError, 1)
      else if runeSize (byteAt s 0) \<le> 2
        then ((byteAt s 0 mod 32) * 64 + byteAt s 1 mod 64, 2)
      else if byteAt s 2 < 0x80 \<or> 0xBF < byteAt s 2 then (RuneError, 1)
      else if runeSize (byteAt s 0) \<le> 3
        then ((byteAt s 0 mod 16) * 4096 + (byteAt s 1 mod 64) * 64 + byteAt s 2 mod 64, 3)
      else if byteAt s 3 < 0x80 \<or> 0xBF < byteAt s 3 then (RuneError, 1)
      else ((byteAt s 0 mod 8) * 262144 + (byteAt s 1 mod 64) * 4096
              + (byteAt s 2 mod 64) * 64 + byteAt s 3 mod 64, 4))"

lemma DecodeRuneInString_size_le: "snd (DecodeRuneInString s) \<le> length s"
  by (auto simp: DecodeRuneInString_def runeSize_def Suc_le_eq)

lemma DecodeRuneInString_size_pos: "s \<noteq> [] \<Longrightarrow> 0 < snd (DecodeRuneInString s)"
  by (auto simp: DecodeRuneInString_def)

text \<open>
  \<^verbatim>\<open>strings.Count(s, "\n")\<close>: the number of newline bytes in \<open>s\<close>.
\<close>

definition CountNewlines :: "string \<Rightarrow> int" where
  "CountNewlines s = int (count_list s (CHR 0x0A))"

text \<open>
  The runes a \<^verbatim>\<open>range\<close> loop over a string yields: the string decoded front to back,
  every invalid byte giving \<open>RuneError\<close>.
\<close>

function runes :: "string \<Rightarrow> int list" where
  "runes s =
     (if s = [] then []
      else fst (DecodeRuneInString s) # runes (drop (snd (DecodeRuneInString s)) s))"
  by pat_completeness auto

termination
  by (relation "measure length") (auto simp: DecodeRuneInString_size_pos)

declare runes.simps [simp del]

definition ValidRune :: "int \<Rightarrow> bool" where
  "ValidRune r = (0 \<le> r \<and> r < 0xD800 \<or> 0xDFFF < r \<and> r \<le> 0x10FFFF)"

text \<open>
  \<^verbatim>\<open>strings.ContainsRune(s, r)\<close>: whether the code point \<open>r\<close> is within \<open>s\<close>. For
  \<open>RuneError\<close> the library looks for any invalid byte sequence as well as for an encoded
  U+FFFD; a value that is not a valid code point (a negative one, as \<open>eof\<close>) is never
  contained; for any other code point it looks for the byte, or for the encoding, which
  occurs in \<open>s\<close> exactly when the code point is among the runes \<open>s\<close> decodes to.
\<close>

definition ContainsRune :: "string \<Rightarrow> int \<Rightarrow> bool" where
  "ContainsRune s r = (ValidRune r \<and> r \<in> set (runes s))"

text \<open>
  A slice expression \<^verbatim>\<open>s[lo:hi]\<close> panics unless \<open>0 \<le> lo \<le> hi \<le> len(s)\<close>.
\<close>

definition slice :: "string \<Rightarrow> int \<Rightarrow> int \<Rightarrow> error + string" where
  "slice s lo hi =
     (if 0 \<le> lo \<and> lo \<le> hi \<and> hi \<le> int (length s)
      then Inr (take (nat (hi - lo)) (drop (nat lo) s))
      else Inl SliceOutOfRange)"

subsection \<open>Token types and tokens\<close>

text \<open>
  \<^verbatim>\<open>TokenType\<close> is an interface with the methods \<^verbatim>\<open>Type\<close> and \<^verbatim>\<open>CountNewLines\<close>; a
  value of it is modelled by what the two methods return. The package's own
  implementation \<^verbatim>\<open>tokenType\<close> answers \<open>False\<close> to \<^verbatim>\<open>CountNewLines\<close>. An interface
  value may be nil, so a field or an argument of that type is a \<open>TokenType option\<close>.
\<close>

datatype TokenType = TokenType (Type: string) (CountNewLines: bool)

definition tokenType :: "string \<Rightarrow> TokenType" where
  "tokenType s = TokenType s False"

definition Error :: TokenType where
  "Error = tokenType ''ERR''"

definition EOF :: TokenType where
  "EOF = tokenType ''EOF''"

datatype Token =
  Token (tok_typ: "TokenType option") (tok_val: string) (tok_pos: int) (tok_line: int)

text \<open>The zero value of \<^verbatim>\<open>Token\<close>, which a receive from a closed channel yields.\<close>

definition zeroToken :: Token where
  "zeroToken = Token None [] 0 0"

subsection \<open>The token channel\<close>

text \<open>
  The channel \<^verbatim>\<open>tokens\<close> is unbuffered: a send completes when the consumer receives.
  The model keeps the tokens sent and not yet received in \<open>queue\<close>, in the order of the
  sends, and whether the channel was closed. A receive that would block for ever (nothing
  sent, not closed) is \<open>None\<close>; the second component of a received value is Go's
  \<^verbatim>\<open>ok\<close>.
\<close>

record chan =
  queue :: "Token list"
  closed :: bool

definition send :: "Token \<Rightarrow> chan \<Rightarrow> error + chan" where
  "send x c = (if closed c then Inl SendOnClosedChannel else Inr (c\<lparr>queue := queue c @ [x]\<rparr>))"

definition recv :: "chan \<Rightarrow> ((Token \<times> bool) \<times> chan) option" where
  "recv c =
     (case queue c of
        x # xs \<Rightarrow> Some ((x, True), c\<lparr>queue := xs\<rparr>)
      | [] \<Rightarrow> if closed c then Some ((zeroToken, False), c) else None)"

definition close :: "chan \<Rightarrow> error + chan" where
  "close c = (if closed c then Inl CloseOfClosedChannel else Inr (c\<lparr>closed := True\<rparr>))"

subsection \<open>The tokenizer\<close>

text \<open>
  The struct \<^verbatim>\<open>Tokenizer\<close>. A \<^verbatim>\<open>StateFn\<close> is a function value or nil; the field
  \<open>state\<close> holds the name \<open>'s\<close> of the next state function, or \<open>None\<close> for nil, and a
  grammar gives every name its function: from the tokenizer to the next state function
  and the tokenizer as the call left it, to a panic, or to \<open>None\<close> when the call does not
  return. \<^verbatim>\<open>New\<close> builds the struct, every field it does not name at the zero value of
  its type, and starts the driver \<^verbatim>\<open>run\<close> on it; the model has the two apart, \<open>New\<close>
  for the struct and \<open>run\<close> for the driver.
\<close>

record 's Tokenizer =
  name :: string
  input :: string
  state :: "'s option"
  start :: int
  end' :: int
  pos :: int
  oldPos :: int
  width :: int
  tokens :: chan
  line :: int

type_synonym 's StateFn =
  "'s Tokenizer \<Rightarrow> (error + 's option \<times> 's Tokenizer) option"

definition New :: "string \<Rightarrow> 's option \<Rightarrow> string \<Rightarrow> 's Tokenizer" where
  "New nm initialState inp =
     \<lparr>name = nm, input = inp, state = initialState, start = 0, end' = 0, pos = 0,
      oldPos = 0, width = 0, tokens = \<lparr>queue = [], closed = False\<rparr>, line = 0\<rparr>"

definition NextRune :: "'s Tokenizer \<Rightarrow> error + int \<times> 's Tokenizer" where
  "NextRune t =
     (if pos t > int (length (input t)) then Inr (eof, t\<lparr>width := 0\<rparr>)
      else if pos t < 0 then Inl SliceOutOfRange
      else
        let rw = DecodeRuneInString (drop (nat (pos t)) (input t));
            t1 = t\<lparr>width := int (snd rw), pos := pos t + int (snd rw)\<rparr>
        in Inr (fst rw, if fst rw = newline then t1\<lparr>line := line t1 + 1\<rparr> else t1))"

definition Backup :: "'s Tokenizer \<Rightarrow> error + 's Tokenizer" where
  "Backup t =
     (let t1 = t\<lparr>pos := pos t - width t\<rparr>
      in if width t1 = 1
         then if 0 \<le> pos t1 \<and> pos t1 < int (length (input t1))
              then Inr (if of_char (input t1 ! nat (pos t1)) = newline
                        then t1\<lparr>line := line t1 - 1\<rparr> else t1)
              else Inl IndexOutOfRange
         else Inr t1)"

definition Peek :: "'s Tokenizer \<Rightarrow> error + int \<times> 's Tokenizer" where
  "Peek t =
     (case NextRune t of
        Inl e \<Rightarrow> Inl e
      | Inr (r, t1) \<Rightarrow> (case Backup t1 of Inl e \<Rightarrow> Inl e | Inr t2 \<Rightarrow> Inr (r, t2)))"

definition Emit :: "TokenType option \<Rightarrow> 's Tokenizer \<Rightarrow> error + 's Tokenizer" where
  "Emit tt t =
     (case slice (input t) (start t) (pos t) of
        Inl e \<Rightarrow> Inl e
      | Inr v \<Rightarrow>
          (case send (Token tt v (start t) (line t)) (tokens t) of
             Inl e \<Rightarrow> Inl e
           | Inr ch \<Rightarrow>
               (case tt of
                  None \<Rightarrow> Inl NilDereference
                | Some c \<Rightarrow>
                    Inr (t\<lparr>tokens := ch,
                           line := (if CountNewLines c then line t + CountNewlines v
                                    else line t),
                           start := pos t\<rparr>))))"

definition Ignore :: "'s Tokenizer \<Rightarrow> error + 's Tokenizer" where
  "Ignore t =
     (case slice (input t) (start t) (pos t) of
        Inl e \<Rightarrow> Inl e
      | Inr v \<Rightarrow> Inr (t\<lparr>line := line t + CountNewlines v, start := pos t\<rparr>))"

definition MatchOne :: "string \<Rightarrow> 's Tokenizer \<Rightarrow> error + bool \<times> 's Tokenizer" where
  "MatchOne alphabet t =
     (case NextRune t of
        Inl e \<Rightarrow> Inl e
      | Inr (r, t1) \<Rightarrow>
          if ContainsRune alphabet r then Inr (True, t1)
          else (case Backup t1 of Inl e \<Rightarrow> Inl e | Inr t2 \<Rightarrow> Inr (False, t2)))"

text \<open>
  The loop of \<^verbatim>\<open>MatchMany\<close> has no bound of its own: \<open>None\<close> is a loop that never ends.
\<close>

partial_function (option) MatchMany :: "string \<Rightarrow> 's Tokenizer \<Rightarrow> (error + 's Tokenizer) option"
where
  "MatchMany alphabet t =
     (case NextRune t of
        Inl e \<Rightarrow> Some (Inl e)
      | Inr (r, t1) \<Rightarrow>
          if ContainsRune alphabet r then MatchMany alphabet t1 else Some (Backup t1))"

declare MatchMany.simps [code]

text \<open>
  \<^verbatim>\<open>Errorf\<close> sends an \<open>Error\<close> token and returns nil; \<open>msg\<close> is the text that
  \<^verbatim>\<open>fmt.Sprintf(format, args...)\<close> produced.
\<close>

definition Errorf :: "string \<Rightarrow> 's Tokenizer \<Rightarrow> error + 's option \<times> 's Tokenizer" where
  "Errorf msg t =
     (case send (Token (Some Error) msg (start t) (line t)) (tokens t) of
        Inl e \<Rightarrow> Inl e
      | Inr ch \<Rightarrow> Inr (None, t\<lparr>tokens := ch\<rparr>))"

definition Next :: "'s Tokenizer \<Rightarrow> (Token \<times> 's Tokenizer) option" where
  "Next t =
     (case recv (tokens t) of
        None \<Rightarrow> None
      | Some ((tkn, ok), ch) \<Rightarrow> Some (tkn, t\<lparr>tokens := ch, oldPos := pos t\<rparr>))"

text \<open>The loop \<^verbatim>\<open>for range t.tokens\<close>: receive until the channel is closed and empty.\<close>

function drain :: "chan \<Rightarrow> chan option" where
  "drain c =
     (case recv c of
        None \<Rightarrow> None
      | Some ((x, ok), c') \<Rightarrow> if ok then drain c' else Some c')"
  by pat_completeness auto

termination
  by (relation "measure (\<lambda>c. length (queue c))") (auto simp: recv_def split: list.splits if_splits)

declare drain.simps [simp del]

definition Drain :: "'s Tokenizer \<Rightarrow> 's Tokenizer option" where
  "Drain t = (case drain (tokens t) of None \<Rightarrow> None | Some ch \<Rightarrow> Some (t\<lparr>tokens := ch\<rparr>))"

text \<open>
  The driver \<^verbatim>\<open>run\<close>, over the grammar \<open>g\<close> that maps the name of a state function to
  the function. A state function that does not return, and a chain of state functions that
  never reaches nil, make \<open>run\<close> \<open>None\<close>.
\<close>

partial_function (option) run :: "('s \<Rightarrow> 's StateFn) \<Rightarrow> 's Tokenizer \<Rightarrow> (error + 's Tokenizer) option"
where
  "run g t =
     (case state t of
        None \<Rightarrow>
          Some (case close (tokens t) of Inl e \<Rightarrow> Inl e | Inr ch \<Rightarrow> Inr (t\<lparr>tokens := ch\<rparr>))
      | Some s \<Rightarrow>
          (case g s t of
             None \<Rightarrow> None
           | Some (Inl e) \<Rightarrow> Some (Inl e)
           | Some (Inr (s', t')) \<Rightarrow> run g (t'\<lparr>state := s'\<rparr>)))"

declare run.simps [code]

subsection \<open>Runs of engine operations\<close>

text \<open>
  The fields of \<^verbatim>\<open>Tokenizer\<close> are not exported: a state function of a grammar acts on the
  engine through its methods only, so what a run of state functions does to the engine is
  a sequence of the operations below (the results the state functions branch on decide
  which sequence). \<open>exec\<close> runs one operation; beside the new state it tells whether the
  operation ended on a read that \<^verbatim>\<open>Backup\<close> may undo: \<^verbatim>\<open>NextRune\<close>, and \<^verbatim>\<open>MatchOne\<close> when it
  matched. \<open>steps\<close> runs a sequence, and stops at the first panic or at an operation that
  does not return.
\<close>

datatype op =
    OpNextRune
  | OpPeek
  | OpBackup
  | OpEmit "TokenType option"
  | OpIgnore
  | OpMatchOne string
  | OpMatchMany string
  | OpErrorf string

fun exec :: "op \<Rightarrow> 's Tokenizer \<Rightarrow> (error + bool \<times> 's Tokenizer) option" where
  "exec OpNextRune t = Some (case NextRune t of Inl e \<Rightarrow> Inl e | Inr (r, t') \<Rightarrow> Inr (True, t'))"
| "exec OpPeek t = Some (case Peek t of Inl e \<Rightarrow> Inl e | Inr (r, t') \<Rightarrow> Inr (False, t'))"
| "exec OpBackup t = Some (case Backup t of Inl e \<Rightarrow> Inl e | Inr t' \<Rightarrow> Inr (False, t'))"
| "exec (OpEmit tt) t = Some (case Emit tt t of Inl e \<Rightarrow> Inl e | Inr t' \<Rightarrow> Inr (False, t'))"
| "exec OpIgnore t = Some (case Ignore t of Inl e \<Rightarrow> Inl e | Inr t' \<Rightarrow> Inr (False, t'))"
| "exec (OpMatchOne alphabet) t =
     Some (case MatchOne alphabet t of Inl e \<Rightarrow> Inl e | Inr (b, t') \<Rightarrow> Inr (b, t'))"
| "exec (OpMatchMany alphabet) t =
     (case MatchMany alphabet t of
        None \<Rightarrow> None
      | Some (Inl e) \<Rightarrow> Some (Inl e)
      | Some (Inr t') \<Rightarrow> Some (Inr (False, t')))"
| "exec (OpErrorf msg) t =
     Some (case Errorf msg t of Inl e \<Rightarrow> Inl e | Inr (s, t') \<Rightarrow> Inr (False, t'))"

fun steps :: "op list \<Rightarrow> bool \<times> 's Tokenizer \<Rightarrow> (error + bool \<times> 's Tokenizer) option" where
  "steps [] c = Some (Inr c)"
| "steps (a # as) c =
     (case exec a (snd c) of
        None \<Rightarrow> None
      | Some (Inl e) \<Rightarrow> Some (Inl e)
      | Some (Inr c') \<Rightarrow> steps as c')"

text \<open>
  \<open>obeys ok as c\<close>: along the run of \<open>as\<close> from \<open>c\<close>, every operation is permitted by
  \<open>ok\<close> in the state it is called in. The contract of the state functions is
  \<open>backup_after_read\<close>: \<^verbatim>\<open>Backup\<close> is called only right after a read.
\<close>

fun obeys :: "(op \<Rightarrow> bool \<times> 's Tokenizer \<Rightarrow> bool) \<Rightarrow> op list \<Rightarrow> bool \<times> 's Tokenizer \<Rightarrow> bool"
where
  "obeys ok [] c = True"
| "obeys ok (a # as) c =
     (ok a c \<and> (case exec a (snd c) of Some (Inr c') \<Rightarrow> obeys ok as c' | _ \<Rightarrow> True))"

definition backup_after_read :: "op \<Rightarrow> bool \<times> 's Tokenizer \<Rightarrow> bool" where
  "backup_after_read a c = (a = OpBackup \<longrightarrow> fst c)"

text \<open>The text between \<open>start\<close> and \<open>pos\<close>, and the operations that count its newlines.\<close>

definition pending :: "'s Tokenizer \<Rightarrow> string" where
  "pending t = take (nat (pos t - start t)) (drop (nat (start t)) (input t))"

fun rescans :: "op \<Rightarrow> bool" where
  "rescans OpIgnore = True"
| "rescans (OpEmit (Some k)) = CountNewLines k"
| "rescans a = False"


text \<open>\<open>Nexts n\<close> is \<open>n\<close> calls of \<^verbatim>\<open>Next\<close> in a row, with the tokens they return.\<close>

fun Nexts :: "nat \<Rightarrow> 's Tokenizer \<Rightarrow> (Token list \<times> 's Tokenizer) option" where
  "Nexts 0 t = Some ([], t)"
| "Nexts (Suc n) t =
     (case Next t of
        None \<Rightarrow> None
      | Some (x, t1) \<Rightarrow>
          (case Nexts n t1 of None \<Rightarrow> None | Some (xs, t2) \<Rightarrow> Some (x # xs, t2)))"

text \<open>
  A one-state grammar for the examples: its state function reads one rune, emits what it
  read as a \<open>WORD\<close> token and returns nil.
\<close>

definition wordGrammar :: "unit \<Rightarrow> unit StateFn" where
  "wordGrammar s t =
     (case NextRune t of
        Inl e \<Rightarrow> Some (Inl e)
      | Inr (r, t1) \<Rightarrow>
          Some (case Emit (Some (tokenType ''WORD'')) t1 of
                  Inl e \<Rightarrow> Inl e
                | Inr t2 \<Rightarrow> Inr (None, t2)))"

subsection \<open>Invariants of a run\<close>

text \<open>
  An invariant \<open>B\<close> of the engine, carried through a run: \<open>B\<close> holds, and when a read is
  pending the state is that of a \<^verbatim>\<open>NextRune\<close> from a state in which \<open>B\<close> held. The
  invariants are \<open>engine_ok\<close>, the positions in order and no line below 0, and \<open>line_ok\<close>,
  which adds that the line counter is the number of newlines before \<open>pos\<close>.
\<close>

definition after_read :: "('s Tokenizer \<Rightarrow> bool) \<Rightarrow> bool \<times> 's Tokenizer \<Rightarrow> bool" where
  "after_read B c = (B (snd c) \<and> (fst c \<longrightarrow> (\<exists>u r. B u \<and> NextRune u = Inr (r, snd c))))"

definition engine_ok :: "'s Tokenizer \<Rightarrow> bool" where
  "engine_ok t =
     (0 \<le> start t \<and> start t \<le> pos t \<and> pos t \<le> int (length (input t)) \<and> 0 \<le> line t
      \<and> (\<forall>x \<in> set (queue (tokens t)). 0 \<le> tok_line x))"


text \<open>
  \<open>engine_open\<close> adds that the channel is not closed; \<open>well_behaved\<close> adds to the
  contract that no nil category is emitted.
\<close>

definition engine_open :: "'s Tokenizer \<Rightarrow> bool" where
  "engine_open t = (engine_ok t \<and> \<not> closed (tokens t))"

definition well_behaved :: "op \<Rightarrow> bool \<times> 's Tokenizer \<Rightarrow> bool" where
  "well_behaved a c = (backup_after_read a c \<and> a \<noteq> OpEmit None)"

section \<open>Facts about the engine\<close>

subsection \<open>The decoder\<close>

lemma byteAt_nat: "byteAt s i = int (of_char (s ! i))"
  unfolding byteAt_def by (simp only: of_nat_of_char)

lemma byteAt_range: "0 \<le> byteAt s i" "byteAt s i < 256"
  by (simp_all add: byteAt_nat)

lemma DecodeRuneInString_cases [case_names empty ascii invalid two three four]:
  assumes "s = [] \<Longrightarrow> DecodeRuneInString s = (RuneError, 0) \<Longrightarrow> P"
    and "s \<noteq> [] \<Longrightarrow> byteAt s 0 < 0x80 \<Longrightarrow> DecodeRuneInString s = (byteAt s 0, 1) \<Longrightarrow> P"
    and "s \<noteq> [] \<Longrightarrow> 0x80 \<le> byteAt s 0 \<Longrightarrow> DecodeRuneInString s = (RuneError, 1) \<Longrightarrow> P"
    and "2 \<le> length s \<Longrightarrow> 0xC2 \<le> byteAt s 0 \<Longrightarrow> byteAt s 0 < 0xE0 \<Longrightarrow> 0x80 \<le> byteAt s 1 \<Longrightarrow>
         byteAt s 1 \<le> 0xBF \<Longrightarrow>
         DecodeRuneInString s = ((byteAt s 0 mod 32) * 64 + byteAt s 1 mod 64, 2) \<Longrightarrow> P"
    and "3 \<le> length s \<Longrightarrow> 0xE0 \<le> byteAt s 0 \<Longrightarrow> byteAt s 0 < 0xF0 \<Longrightarrow>
         acceptLo (byteAt s 0) \<le> byteAt s 1 \<Longrightarrow> byteAt s 1 \<le> 0xBF \<Longrightarrow>
         0x80 \<le> byteAt s 2 \<Longrightarrow>
         DecodeRuneInString s =
           ((byteAt s 0 mod 16) * 4096 + (byteAt s 1 mod 64) * 64 + byteAt s 2 mod 64, 3) \<Longrightarrow> P"
    and "4 \<le> length s \<Longrightarrow> 0xF0 \<le> byteAt s 0 \<Longrightarrow> byteAt s 0 \<le> 0xF4 \<Longrightarrow>
         acceptLo (byteAt s 0) \<le> byteAt s 1 \<Longrightarrow> byteAt s 1 \<le> 0xBF \<Longrightarrow>
         0x80 \<le> byteAt s 2 \<Longrightarrow> 0x80 \<le> byteAt s 3 \<Longrightarrow>
         DecodeRuneInString s =
           ((byteAt s 0 mod 8) * 262144 + (byteAt s 1 mod 64) * 4096
              + (byteAt s 2 mod 64) * 64 + byteAt s 3 mod 64, 4) \<Longrightarrow> P"
  shows P
proof (cases "s = []")
  case True
  then show P using assms(1) by (simp add: DecodeRuneInString_def)
next
  case ne: False
  then have len: "\<not> length s < 1" by (simp add: not_less Suc_le_eq)
  show P
  proof (cases "byteAt s 0 < 0x80")
    case True
    then show P using assms(2) ne len by (simp add: DecodeRuneInString_def)
  next
    case hi: False
    show P
    proof (cases "byteAt s 0 < 0xC2 \<or> 0xF4 < byteAt s 0")
      case True
      then show P using assms(3) ne len hi by (simp add: DecodeRuneInString_def)
    next
      case lead: False
      show P
      proof (cases "length s < runeSize (byteAt s 0)")
        case True
        then show P using assms(3) ne len hi lead by (simp add: DecodeRuneInString_def)
      next
        case long: False
        show P
        proof (cases "byteAt s 1 < acceptLo (byteAt s 0) \<or> acceptHi (byteAt s 0) < byteAt s 1")
          case True
          then show P using assms(3) ne len hi lead long by (simp add: DecodeRuneInString_def)
        next
          case s1: False
          then have s1lo: "0x80 \<le> byteAt s 1" by (auto simp: acceptLo_def split: if_splits)
          from s1 have s1hi: "byteAt s 1 \<le> 0xBF" by (auto simp: acceptHi_def split: if_splits)
          show P
          proof (cases "runeSize (byteAt s 0) \<le> 2")
            case True
            then have "byteAt s 0 < 0xE0" by (simp add: runeSize_def split: if_splits)
            moreover have "2 \<le> length s" using long True by (simp add: runeSize_def split: if_splits)
            moreover have "DecodeRuneInString s = ((byteAt s 0 mod 32) * 64 + byteAt s 1 mod 64, 2)"
              using True ne len hi lead long s1 by (simp add: DecodeRuneInString_def)
            ultimately show P using assms(4) lead s1lo s1hi by simp
          next
            case sz2: False
            then have e0: "0xE0 \<le> byteAt s 0" by (simp add: runeSize_def split: if_splits)
            show P
            proof (cases "byteAt s 2 < 0x80 \<or> 0xBF < byteAt s 2")
              case True
              then show P using assms(3) ne len hi lead long s1 sz2
                by (simp add: DecodeRuneInString_def)
            next
              case s2: False
              show P
              proof (cases "runeSize (byteAt s 0) \<le> 3")
                case True
                then have "byteAt s 0 < 0xF0" by (simp add: runeSize_def split: if_splits)
                moreover have "3 \<le> length s"
                  using long sz2 True by (simp add: runeSize_def split: if_splits)
                moreover have "DecodeRuneInString s =
                    ((byteAt s 0 mod 16) * 4096 + (byteAt s 1 mod 64) * 64 + byteAt s 2 mod 64, 3)"
                  using True ne len hi lead long s1 sz2 s2 by (simp add: DecodeRuneInString_def)
                ultimately show P using assms(5) e0 s1 s1hi s2 by simp
              next
                case sz3: False
                then have f0: "0xF0 \<le> byteAt s 0" by (simp add: runeSize_def split: if_splits)
                have l4: "4 \<le> length s" using long sz3 by (simp add: runeSize_def split: if_splits)
                show P
                proof (cases "byteAt s 3 < 0x80 \<or> 0xBF < byteAt s 3")
                  case True
                  then show P using assms(3) ne len hi lead long s1 sz2 s2 sz3
                    by (simp add: DecodeRuneInString_def)
                next
                  case s3: False
                  have "DecodeRuneInString s =
                      ((byteAt s 0 mod 8) * 262144 + (byteAt s 1 mod 64) * 4096
                         + (byteAt s 2 mod 64) * 64 + byteAt s 3 mod 64, 4)"
                    using ne len hi lead long s1 sz2 s2 sz3 s3 by (simp add: DecodeRuneInString_def)
                  then show P using assms(6) f0 l4 lead s1 s1hi s2 s3 by simp
                qed
              qed
            qed
          qed
        qed
      qed
    qed
  qed
qed

lemma DecodeRuneInString_size_le4: "snd (DecodeRuneInString s) \<le> 4"
  by (cases s rule: DecodeRuneInString_cases) simp_all

lemma two_byte_ge: "0xC2 \<le> a \<Longrightarrow> a < 0xE0 \<Longrightarrow> 128 \<le> (a mod 32) * 64 + b mod 64" for a b :: int
proof -
  assume "0xC2 \<le> a" "a < 0xE0"
  then have "2 \<le> a mod 32" by presburger
  moreover have "0 \<le> b mod 64" by simp
  ultimately show ?thesis by linarith
qed

lemma three_byte_ge:
  "0xE0 \<le> a \<Longrightarrow> a < 0xF0 \<Longrightarrow> acceptLo a \<le> b \<Longrightarrow> b \<le> 0xBF \<Longrightarrow>
   128 \<le> (a mod 16) * 4096 + (b mod 64) * 64 + c mod 64" for a b c :: int
proof -
  assume a: "0xE0 \<le> a" "a < 0xF0" and b: "acceptLo a \<le> b" "b \<le> 0xBF"
  have c: "0 \<le> c mod 64" by simp
  have b0: "0 \<le> b mod 64" by simp
  have a0: "0 \<le> a mod 16" by simp
  show ?thesis
  proof (cases "a = 0xE0")
    case True
    then have "0xA0 \<le> b" using b by (simp add: acceptLo_def)
    then have "32 \<le> b mod 64" using b(2) by presburger
    then show ?thesis using a0 c by linarith
  next
    case False
    then have "1 \<le> a mod 16" using a by presburger
    then show ?thesis using b0 c by linarith
  qed
qed

lemma four_byte_ge:
  "0xF0 \<le> a \<Longrightarrow> a \<le> 0xF4 \<Longrightarrow> acceptLo a \<le> b \<Longrightarrow> b \<le> 0xBF \<Longrightarrow>
   128 \<le> (a mod 8) * 262144 + (b mod 64) * 4096 + (c mod 64) * 64 + d mod 64" for a b c d :: int
proof -
  assume a: "0xF0 \<le> a" "a \<le> 0xF4" and b: "acceptLo a \<le> b" "b \<le> 0xBF"
  have c: "0 \<le> c mod 64" "0 \<le> d mod 64" by simp_all
  have b0: "0 \<le> b mod 64" by simp
  have a0: "0 \<le> a mod 8" by simp
  show ?thesis
  proof (cases "a = 0xF0")
    case True
    then have "0x90 \<le> b" using b by (simp add: acceptLo_def)
    then have "16 \<le> b mod 64" using b(2) by presburger
    then show ?thesis using a0 c by linarith
  next
    case False
    then have "1 \<le> a mod 8" using a by presburger
    then show ?thesis using b0 c by linarith
  qed
qed

text \<open>A rune decoded from more than one byte is not below 128.\<close>

lemma DecodeRuneInString_wide:
  "1 < snd (DecodeRuneInString s) \<Longrightarrow> 128 \<le> fst (DecodeRuneInString s)"
proof (cases s rule: DecodeRuneInString_cases)
  case two
  then show ?thesis using two_byte_ge [of "byteAt s 0" "byteAt s 1"] by simp
next
  case three
  then show ?thesis
    using three_byte_ge [of "byteAt s 0" "byteAt s 1" "byteAt s 2"] by simp
next
  case four
  then show ?thesis
    using four_byte_ge [of "byteAt s 0" "byteAt s 1" "byteAt s 2" "byteAt s 3"]
      by simp
qed simp_all

lemma DecodeRuneInString_newline:
  "fst (DecodeRuneInString s) = newline \<longleftrightarrow> s \<noteq> [] \<and> byteAt s 0 = newline"
proof (cases s rule: DecodeRuneInString_cases)
  case two
  then show ?thesis using two_byte_ge [of "byteAt s 0" "byteAt s 1"] by (simp add: newline_def)
next
  case three
  then show ?thesis
    using three_byte_ge [of "byteAt s 0" "byteAt s 1" "byteAt s 2"]
    by (simp add: newline_def)
next
  case four
  then show ?thesis
    using four_byte_ge [of "byteAt s 0" "byteAt s 1" "byteAt s 2" "byteAt s 3"] by (simp add: newline_def)
qed (simp_all add: newline_def RuneError_def)

lemma DecodeRuneInString_newline_size:
  assumes "fst (DecodeRuneInString s) = newline"
  shows "snd (DecodeRuneInString s) = 1"
proof (cases s rule: DecodeRuneInString_cases)
  case two
  then show ?thesis
    using assms two_byte_ge [of "byteAt s 0" "byteAt s 1"] by (simp add: newline_def)
next
  case three
  then show ?thesis
    using assms three_byte_ge [of "byteAt s 0" "byteAt s 1" "byteAt s 2"]
    by (simp add: newline_def)
next
  case four
  then show ?thesis
    using assms four_byte_ge [of "byteAt s 0" "byteAt s 1" "byteAt s 2" "byteAt s 3"]
    by (simp add: newline_def)
qed (use assms in \<open>simp_all add: newline_def RuneError_def\<close>)







lemma CountNewlines_nonneg: "0 \<le> CountNewlines s"
  by (simp add: CountNewlines_def)




subsection \<open>Reading and un-reading one rune\<close>

text \<open>
  Before the end of the input \<^verbatim>\<open>Peek\<close> changes the recorded width only, to the width
  of the rune it returns, which is from 1 to 4.
\<close>

lemma NextRune_returns:
  assumes "0 \<le> pos t"
  shows "\<exists>r t1. NextRune t = Inr (r, t1)"
  using assms by (simp add: NextRune_def Let_def)

lemma NextRune_Inr:
  assumes "NextRune t = Inr (r, t1)"
  shows "input t1 = input t \<and> start t1 = start t \<and> tokens t1 = tokens t \<and> state t1 = state t
    \<and> name t1 = name t \<and> end' t1 = end' t \<and> oldPos t1 = oldPos t \<and> 0 \<le> width t1 \<and> width t1 \<le> 4
    \<and> pos t1 = pos t + width t1 \<and> line t \<le> line t1"
  using assms DecodeRuneInString_size_le4 [of "drop (nat (pos t)) (input t)"]
  by (auto simp: NextRune_def Let_def split: if_splits)

lemma NextRune_pos_le:
  assumes "NextRune t = Inr (r, t1)" and "pos t \<le> int (length (input t))"
  shows "pos t1 \<le> int (length (input t))"
  using assms DecodeRuneInString_size_le [of "drop (nat (pos t)) (input t)"]
  by (auto simp: NextRune_def Let_def split: if_splits)

text \<open>
  Past the end of the input \<^verbatim>\<open>NextRune\<close> returns \<open>eof\<close>; at the end it returns
  \<open>RuneError\<close>. Either way \<open>pos\<close> stays and the width is set to 0.
\<close>

lemma NextRune_past_end:
  assumes "pos t > int (length (input t))"
  shows "NextRune t = Inr (eof, t\<lparr>width := 0\<rparr>)"
  using assms by (simp add: NextRune_def)

lemma NextRune_at_end:
  assumes "pos t = int (length (input t))"
  shows "NextRune t = Inr (RuneError, t\<lparr>width := 0\<rparr>)"
  using assms by (simp add: NextRune_def DecodeRuneInString_def RuneError_def newline_def)

text \<open>
  \<^verbatim>\<open>Backup\<close> right after \<^verbatim>\<open>NextRune\<close> gives back the state before the read, but for the
  recorded width, which stays that of the rune read.
\<close>

lemma Backup_NextRune:
  assumes "NextRune t = Inr (r, t1)"
  shows "Backup t1 = Inr (t\<lparr>width := width t1\<rparr>)"
proof (cases "pos t > int (length (input t))")
  case True
  then show ?thesis using assms by (auto simp: NextRune_def Backup_def)
next
  case False
  define s where "s = drop (nat (pos t)) (input t)"
  define w where "w = snd (DecodeRuneInString s)"
  from False assms have p0: "0 \<le> pos t" by (auto simp: NextRune_def split: if_splits)
  show ?thesis
  proof (cases "w = 1")
    case w1: True
    then have ne: "s \<noteq> []" using DecodeRuneInString_size_le [of s] by (auto simp: w_def)
    then have lt: "pos t < int (length (input t))" using p0 by (auto simp: s_def)
    have "byteAt s 0 = of_char (input t ! nat (pos t))"
      using lt p0 by (simp add: byteAt_def s_def)
    then have nl: "fst (DecodeRuneInString s) = newline \<longleftrightarrow> of_char (input t ! nat (pos t)) = newline"
      using ne by (simp add: DecodeRuneInString_newline)
    show ?thesis
      using assms False p0 lt w1 nl
      by (auto simp: NextRune_def Backup_def Let_def s_def [symmetric] w_def [symmetric])
  next
    case wn: False
    then have "fst (DecodeRuneInString s) \<noteq> newline"
      using DecodeRuneInString_newline_size [of s] by (auto simp: w_def)
    then show ?thesis
      using assms False p0 wn
      by (auto simp: NextRune_def Backup_def Let_def s_def [symmetric] w_def [symmetric])
  qed
qed

lemma Peek_Inr:
  assumes "Peek t = Inr (r, t2)"
  shows "\<exists>t1. NextRune t = Inr (r, t1) \<and> t2 = t\<lparr>width := width t1\<rparr>"
  using assms by (auto simp: Peek_def Backup_NextRune split: sum.splits)

lemma Peek_NextRune:
  assumes "NextRune t = Inr (r, t1)"
  shows "Peek t = Inr (r, t\<lparr>width := width t1\<rparr>)"
  using assms by (simp add: Peek_def Backup_NextRune)

lemma Peek_before_end:
  assumes "0 \<le> pos t" and "pos t < int (length (input t))"
  shows "\<exists>r w. Peek t = Inr (r, t\<lparr>width := w\<rparr>) \<and> 1 \<le> w \<and> w \<le> 4"
proof -
  define s where "s = drop (nat (pos t)) (input t)"
  have ne: "s \<noteq> []" using assms by (simp add: s_def)
  obtain r t1 where n: "NextRune t = Inr (r, t1)"
    using NextRune_returns [OF assms(1)] by blast
  then have w: "width t1 = int (snd (DecodeRuneInString s))"
    using assms by (auto simp: NextRune_def Let_def s_def)
  have "1 \<le> width t1" using DecodeRuneInString_size_pos [OF ne] w by simp
  moreover have "width t1 \<le> 4" using DecodeRuneInString_size_le4 [of s] w by simp
  ultimately show ?thesis using Peek_NextRune [OF n] by blast
qed

subsection \<open>The loop of MatchMany\<close>

lemma ContainsRune_eof: "\<not> ContainsRune alphabet eof"
  by (simp add: ContainsRune_def ValidRune_def eof_def)

lemma runes_replacement: "runes [CHR 0xEF, CHR 0xBF, CHR 0xBD] = [RuneError]"
  by (simp add: runes.simps DecodeRuneInString_def byteAt_def runeSize_def acceptLo_def
      acceptHi_def RuneError_def)

lemma MatchMany_Some_not_stuck:
  assumes "MatchMany alphabet t = Some y"
  shows "\<not> (ContainsRune alphabet RuneError \<and> pos t = int (length (input t)))"
  using assms
proof (induction alphabet t y rule: MatchMany.raw_induct [rotated, consumes 1, case_names step])
  case (step MatchMany' alphabet t y)
  show ?case
  proof
    assume stuck: "ContainsRune alphabet RuneError \<and> pos t = int (length (input t))"
    then have "NextRune t = Inr (RuneError, t\<lparr>width := 0\<rparr>)" by (simp add: NextRune_at_end)
    with step(2) stuck have again: "MatchMany' alphabet (t\<lparr>width := 0\<rparr>) = Some y" by simp
    have "\<not> (ContainsRune alphabet RuneError
        \<and> pos (t\<lparr>width := 0\<rparr>) = int (length (input (t\<lparr>width := 0\<rparr>))))"
      by (rule step(1) [OF again])
    with stuck show False by simp
  qed
qed

text \<open>
  At the end of the input \<^verbatim>\<open>NextRune\<close> keeps returning \<open>RuneError\<close> without moving; an
  alphabet that contains it keeps the loop going for ever.
\<close>

lemma MatchMany_diverges:
  assumes "ContainsRune alphabet RuneError" and "pos t = int (length (input t))"
  shows "MatchMany alphabet t = None"
proof (cases "MatchMany alphabet t")
  case (Some y)
  from MatchMany_Some_not_stuck [OF this] assms show ?thesis by simp
qed simp

text \<open>
  With an alphabet that does not contain \<open>RuneError\<close> the loop of \<^verbatim>\<open>MatchMany\<close> ends:
  every read that matches moves \<open>pos\<close> forward.
\<close>

lemma MatchMany_terminates:
  assumes "\<not> ContainsRune alphabet RuneError" and "0 \<le> pos t"
  shows "\<exists>y. MatchMany alphabet t = Some y"
  using assms(2)
proof (induction "nat (int (length (input t)) - pos t)" arbitrary: t rule: less_induct)
  case less
  obtain r t1 where n: "NextRune t = Inr (r, t1)"
    using NextRune_returns [OF less.prems] by blast
  show ?case
  proof (cases "ContainsRune alphabet r")
    case False
    then show ?thesis using n by (subst MatchMany.simps) simp
  next
    case True
    then have r: "r \<noteq> RuneError" "r \<noteq> eof" using assms(1) ContainsRune_eof by auto
    have lt: "pos t < int (length (input t))"
    proof (rule ccontr)
      assume "\<not> pos t < int (length (input t))"
      then consider "pos t = int (length (input t))" | "pos t > int (length (input t))"
        by linarith
      then show False
      proof cases
        case 1
        from NextRune_at_end [OF this] n r show False by simp
      next
        case 2
        then show False using n r by (simp add: NextRune_def)
      qed
    qed
    define s where "s = drop (nat (pos t)) (input t)"
    have ne: "s \<noteq> []" using lt less.prems by (simp add: s_def)
    have "width t1 = int (snd (DecodeRuneInString s))"
      using n lt less.prems by (auto simp: NextRune_def Let_def s_def)
    then have "1 \<le> width t1" using DecodeRuneInString_size_pos [OF ne] by simp
    with NextRune_Inr [OF n] less.prems lt
    have "nat (int (length (input t1)) - pos t1) < nat (int (length (input t)) - pos t)"
      and "0 \<le> pos t1"
      by simp_all
    from less.hyps [OF this] obtain y where "MatchMany alphabet t1 = Some y" by blast
    then show ?thesis using n True by (subst MatchMany.simps) simp
  qed
qed

lemma MatchMany_preserves:
  assumes rd: "\<And>u r t. B u \<Longrightarrow> NextRune u = Inr (r, t) \<Longrightarrow> B t"
    and wd: "\<And>t w. B t \<Longrightarrow> B (t\<lparr>width := w\<rparr>)"
    and "MatchMany alphabet t = Some y"
  shows "B t \<longrightarrow> (\<forall>t'. y = Inr t' \<longrightarrow> B t')"
  using assms(3)
proof (induction alphabet t y rule: MatchMany.raw_induct [rotated, consumes 1, case_names step])
  case (step MatchMany' alphabet t y)
  show ?case
  proof (intro impI allI)
    fix t' assume B: "B t" and y: "y = Inr t'"
    from step(2) y obtain r t1 where n: "NextRune t = Inr (r, t1)"
      by (cases "NextRune t") auto
    show "B t'"
    proof (cases "ContainsRune alphabet r")
      case True
      with step(2) n have "MatchMany' alphabet t1 = Some y" by simp
      from step(1) [OF this] rd [OF B n] y show ?thesis by simp
    next
      case False
      with step(2) n y have "Backup t1 = Inr t'" by simp
      then have "t' = t\<lparr>width := width t1\<rparr>" using Backup_NextRune [OF n] by simp
      then show ?thesis using wd [OF B] by simp
    qed
  qed
qed

subsection \<open>The driver and the consumer\<close>

lemma run_Some:
  assumes "run g t = Some y"
  shows "\<forall>t'. y = Inr t' \<longrightarrow> closed (tokens t') \<and> state t' = None"
  using assms
proof (induction g t y rule: run.raw_induct [rotated, consumes 1, case_names step])
  case (step run' g t y)
  show ?case
  proof (cases "state t")
    case None
    with step(2) show ?thesis by (auto simp: close_def split: if_splits)
  next
    case (Some s)
    show ?thesis
    proof (intro allI impI)
      fix t' assume y: "y = Inr t'"
      with Some step(2) obtain s' t1 where "run' g (t1\<lparr>state := s'\<rparr>) = Some y"
        by (auto split: option.splits sum.splits)
      from step(1) [OF this] y show "closed (tokens t') \<and> state t' = None" by simp
    qed
  qed
qed

lemma run_closed:
  assumes "run g t = Some (Inr t')"
  shows "closed (tokens t') \<and> state t' = None"
  using run_Some [OF assms] by simp

lemma Next_closed:
  assumes "closed (tokens t)"
  shows "\<exists>u. Next t = Some (hd (queue (tokens t) @ [zeroToken]), u) \<and> closed (tokens u)
    \<and> queue (tokens u) = tl (queue (tokens t))"
  using assms by (cases "queue (tokens t)") (simp_all add: Next_def recv_def)

lemma Nexts_closed:
  assumes "closed (tokens t)"
  shows "\<exists>u. Nexts n t = Some (take n (queue (tokens t) @ replicate n zeroToken), u)"
  using assms
proof (induction n arbitrary: t)
  case 0
  then show ?case by simp
next
  case (Suc n)
  from Next_closed [OF Suc.prems] obtain u where
    u: "Next t = Some (hd (queue (tokens t) @ [zeroToken]), u)" "closed (tokens u)"
      "queue (tokens u) = tl (queue (tokens t))"
    by blast
  from Suc.IH [OF u(2)] obtain v where
    v: "Nexts n u = Some (take n (queue (tokens u) @ replicate n zeroToken), v)" by blast
  show ?case
  proof (cases "queue (tokens t)")
    case Nil
    with u v show ?thesis by (simp add: replicate_append_same)
  next
    case (Cons x xs)
    have "take (n - length xs) (zeroToken # replicate n zeroToken)
        = replicate (n - length xs) zeroToken"
      by (simp only: replicate_Suc [symmetric] take_replicate) simp
    with Cons u v show ?thesis by simp
  qed
qed

lemma run_wordGrammar:
  "run wordGrammar (New [] (Some ()) ''a'')
     = Some (Inr (New [] None ''a''\<lparr>start := 1, pos := 1, width := 1,
          tokens := \<lparr>queue = [Token (Some (tokenType ''WORD'')) ''a'' 0 0], closed = True\<rparr>\<rparr>))"
  by (simp add: run.simps wordGrammar_def New_def NextRune_def DecodeRuneInString_def
      byteAt_def newline_def Emit_def slice_def send_def close_def tokenType_def)

subsection \<open>Invariants along a run\<close>


lemma exec_after_read:
  assumes rd: "\<And>u r t. B u \<Longrightarrow> NextRune u = Inr (r, t) \<Longrightarrow> B t"
    and wd: "\<And>t w. B t \<Longrightarrow> B (t\<lparr>width := w\<rparr>)"
    and bd: "\<And>t t'. B t \<Longrightarrow> ok a (p, t) \<Longrightarrow> rescans a \<or> (\<exists>tt. a = OpEmit tt) \<or> (\<exists>m. a = OpErrorf m)
          \<Longrightarrow> exec a t = Some (Inr (False, t')) \<Longrightarrow> B t'"
    and inv: "after_read B (p, t)"
    and ok: "ok a (p, t)" "backup_after_read a (p, t)"
    and ex: "exec a t = Some (Inr c')"
  shows "after_read B c'"
proof -
  from inv have B: "B t" by (simp add: after_read_def)
  show ?thesis
  proof (cases a)
    case OpNextRune
    with ex obtain r t1 where n: "NextRune t = Inr (r, t1)" and c': "c' = (True, t1)"
      by (auto split: sum.splits)
    with rd [OF B n] B show ?thesis by (auto simp: after_read_def)
  next
    case OpPeek
    with ex obtain r t2 where "Peek t = Inr (r, t2)" and c': "c' = (False, t2)"
      by (auto split: sum.splits)
    with Peek_Inr [of t r t2] wd [OF B] show ?thesis by (auto simp: after_read_def)
  next
    case OpBackup
    with ok(2) inv obtain u r where u: "B u" "NextRune u = Inr (r, t)"
      by (auto simp: after_read_def backup_after_read_def)
    from OpBackup ex obtain t2 where "Backup t = Inr t2" and c': "c' = (False, t2)"
      by (auto split: sum.splits)
    with Backup_NextRune [OF u(2)] wd [OF u(1)] show ?thesis by (auto simp: after_read_def)
  next
    case (OpEmit tt)
    with ex obtain t2 where c': "c' = (False, t2)" by (auto split: sum.splits)
    with bd [OF B ok(1), of t2] OpEmit ex show ?thesis by (auto simp: after_read_def)
  next
    case OpIgnore
    with ex obtain t2 where c': "c' = (False, t2)" by (auto split: sum.splits)
    with bd [OF B ok(1), of t2] OpIgnore ex show ?thesis by (auto simp: after_read_def)
  next
    case (OpMatchOne alphabet)
    with ex obtain b t2 where m: "MatchOne alphabet t = Inr (b, t2)" and c': "c' = (b, t2)"
      by (auto split: sum.splits)
    from m obtain r t1 where n: "NextRune t = Inr (r, t1)"
      by (cases "NextRune t") (auto simp: MatchOne_def)
    show ?thesis
    proof (cases "ContainsRune alphabet r")
      case True
      with m n have "b" "t2 = t1" by (auto simp: MatchOne_def)
      with c' rd [OF B n] B n show ?thesis by (auto simp: after_read_def)
    next
      case False
      with m n Backup_NextRune [OF n] have "\<not> b" "t2 = t\<lparr>width := width t1\<rparr>"
        by (auto simp: MatchOne_def)
      with c' wd [OF B] show ?thesis by (auto simp: after_read_def)
    qed
  next
    case (OpMatchMany alphabet)
    with ex obtain t2 where m: "MatchMany alphabet t = Some (Inr t2)" and c': "c' = (False, t2)"
      by (auto split: option.splits sum.splits)
    from MatchMany_preserves [of B, OF rd wd m] B c' show ?thesis
      by (auto simp: after_read_def)
  next
    case (OpErrorf msg)
    with ex obtain t2 where c': "c' = (False, t2)" by (auto split: sum.splits)
    with bd [OF B ok(1), of t2] OpErrorf ex show ?thesis by (auto simp: after_read_def)
  qed
qed

lemma steps_after_read:
  assumes rd: "\<And>u r t. B u \<Longrightarrow> NextRune u = Inr (r, t) \<Longrightarrow> B t"
    and wd: "\<And>t w. B t \<Longrightarrow> B (t\<lparr>width := w\<rparr>)"
    and bd: "\<And>a p t t'. B t \<Longrightarrow> ok a (p, t) \<Longrightarrow> rescans a \<or> (\<exists>tt. a = OpEmit tt) \<or> (\<exists>m. a = OpErrorf m)
          \<Longrightarrow> exec a t = Some (Inr (False, t')) \<Longrightarrow> B t'"
    and okb: "\<And>a c. ok a c \<Longrightarrow> backup_after_read a c"
  shows "after_read B c \<Longrightarrow> obeys ok as c \<Longrightarrow> steps as c = Some (Inr c') \<Longrightarrow> after_read B c'"
proof (induction as arbitrary: c)
  case Nil
  then show ?case by simp
next
  case (Cons a as)
  obtain p t where c: "c = (p, t)" by (cases c)
  from Cons.prems(3) obtain c1 where e: "exec a t = Some (Inr c1)" and s: "steps as c1 = Some (Inr c')"
    by (auto simp: c split: option.splits sum.splits)
  from Cons.prems(2) e have ok: "ok a (p, t)" and ob: "obeys ok as c1" by (simp_all add: c)
  have "after_read B c1"
    by (rule exec_after_read [of B ok a p t c1, OF rd wd bd _ ok okb [OF ok] e])
      (use Cons.prems(1) c in auto)
  from Cons.IH [OF this ob s] show ?case .
qed


lemma engine_ok_read:
  assumes "engine_ok u" and "NextRune u = Inr (r, t)"
  shows "engine_ok t"
  using assms NextRune_Inr [OF assms(2)] NextRune_pos_le [OF assms(2)]
  by (simp add: engine_ok_def)

lemma engine_ok_width: "engine_ok t \<Longrightarrow> engine_ok (t\<lparr>width := w\<rparr>)"
  by (simp add: engine_ok_def)

lemma engine_ok_boundary:
  assumes "engine_ok t"
    and "rescans a \<or> (\<exists>tt. a = OpEmit tt) \<or> (\<exists>m. a = OpErrorf m)"
    and "exec a t = Some (Inr (False, t'))"
  shows "engine_ok t'"
proof (cases a)
  case (OpEmit tt)
  with assms(1,3) show ?thesis
    using CountNewlines_nonneg
    by (auto simp: engine_ok_def Emit_def send_def add_nonneg_nonneg
        split: sum.splits option.splits if_splits)
next
  case OpIgnore
  with assms(1,3) show ?thesis
    using CountNewlines_nonneg
    by (auto simp: engine_ok_def Ignore_def add_nonneg_nonneg split: sum.splits)
next
  case (OpErrorf msg)
  with assms(1,3) show ?thesis
    by (auto simp: engine_ok_def Errorf_def send_def split: sum.splits if_splits)
qed (use assms(2) in auto)

lemma engine_ok_New: "after_read engine_ok (False, New nm st inp)"
  by (simp add: after_read_def engine_ok_def New_def)

lemma engine_ok_steps:
  assumes "obeys backup_after_read as (False, New nm st inp)"
    and "steps as (False, New nm st inp) = Some (Inr (p, t))"
  shows "engine_ok t"
proof -
  have "after_read engine_ok (p, t)"
    by (rule steps_after_read [of engine_ok backup_after_read, OF _ _ _ _ engine_ok_New assms])
      (auto intro: engine_ok_read engine_ok_width engine_ok_boundary)
  then show ?thesis by (simp add: after_read_def)
qed






lemma input_read: "input u = inp \<Longrightarrow> NextRune u = Inr (r, t) \<Longrightarrow> input t = inp"
  using NextRune_Inr by fastforce

lemma input_boundary:
  assumes "input t = inp"
    and "rescans a \<or> (\<exists>tt. a = OpEmit tt) \<or> (\<exists>m. a = OpErrorf m)"
    and "exec a t = Some (Inr (False, t'))"
  shows "input t' = inp"
  using assms
  by (cases a) (auto simp: Emit_def Ignore_def Errorf_def split: sum.splits option.splits)

lemma input_steps:
  assumes "obeys backup_after_read as (False, New nm st inp)"
    and "steps as (False, New nm st inp) = Some (Inr (p, t))"
  shows "input t = inp"
proof -
  have i0: "after_read (\<lambda>t. input t = inp) (False, New nm st inp)"
    by (simp add: after_read_def New_def)
  have "after_read (\<lambda>t. input t = inp) (p, t)"
    by (rule steps_after_read [of "\<lambda>t. input t = inp" backup_after_read, OF _ _ _ _ i0 assms])
      (auto intro: input_read input_boundary)
  then show ?thesis by (simp add: after_read_def)
qed

subsection \<open>No panic along a run\<close>

text \<open>
  A run that keeps the contract and emits no nil category never panics: with the positions
  in order every slice and every index is in range, and the driver closes the channel only
  after the last state function has returned.
\<close>

lemma engine_open_boundary:
  assumes "engine_open t"
    and "rescans a \<or> (\<exists>tt. a = OpEmit tt) \<or> (\<exists>m. a = OpErrorf m)"
    and "exec a t = Some (Inr (False, t'))"
  shows "engine_open t'"
proof -
  from assms(1) have ok: "engine_ok t" and op: "\<not> closed (tokens t)"
    by (simp_all add: engine_open_def)
  have "\<not> closed (tokens t')"
    using assms(2,3) op
    by (cases a)
      (auto simp: Emit_def Ignore_def Errorf_def send_def split: sum.splits option.splits if_splits)
  with engine_ok_boundary [OF ok assms(2,3)] show ?thesis by (simp add: engine_open_def)
qed

lemma engine_open_read:
  assumes "engine_open u" and "NextRune u = Inr (r, t)"
  shows "engine_open t"
  using assms engine_ok_read [OF _ assms(2)] NextRune_Inr [OF assms(2)]
  by (simp add: engine_open_def)

lemma engine_open_width: "engine_open t \<Longrightarrow> engine_open (t\<lparr>width := w\<rparr>)"
  by (simp add: engine_open_def engine_ok_def)

lemma MatchMany_no_panic:
  assumes "MatchMany alphabet t = Some y"
  shows "0 \<le> pos t \<longrightarrow> (\<exists>t'. y = Inr t')"
  using assms
proof (induction alphabet t y rule: MatchMany.raw_induct [rotated, consumes 1, case_names step])
  case (step MatchMany' alphabet t y)
  show ?case
  proof
    assume p: "0 \<le> pos t"
    then obtain r t1 where n: "NextRune t = Inr (r, t1)" using NextRune_returns by blast
    show "\<exists>t'. y = Inr t'"
    proof (cases "ContainsRune alphabet r")
      case True
      with step(2) n have "MatchMany' alphabet t1 = Some y" by simp
      moreover have "0 \<le> pos t1" using NextRune_Inr [OF n] p by simp
      ultimately show ?thesis using step(1) by blast
    next
      case False
      with step(2) n Backup_NextRune [OF n] show ?thesis by auto
    qed
  qed
qed

lemma exec_no_panic:
  assumes "after_read engine_open (p, t)" and "well_behaved a (p, t)"
  shows "exec a t \<noteq> Some (Inl e)"
proof -
  from assms(1) have ok: "engine_ok t" and op: "\<not> closed (tokens t)"
    by (simp_all add: after_read_def engine_open_def)
  from ok have p0: "0 \<le> pos t" by (simp add: engine_ok_def)
  from NextRune_returns [OF p0] obtain r t1 where n: "NextRune t = Inr (r, t1)" by blast
  from ok have sl: "slice (input t) (start t) (pos t) = Inr (pending t)"
    by (simp add: slice_def engine_ok_def pending_def)
  show ?thesis
  proof (cases a)
    case OpNextRune
    then show ?thesis using n by simp
  next
    case OpPeek
    then show ?thesis using Peek_NextRune [OF n] by simp
  next
    case OpBackup
    with assms obtain u r' where "NextRune u = Inr (r', t)"
      by (auto simp: after_read_def well_behaved_def backup_after_read_def)
    from Backup_NextRune [OF this] OpBackup show ?thesis by simp
  next
    case (OpEmit tt)
    with assms(2) obtain k where "tt = Some k" by (cases tt) (auto simp: well_behaved_def)
    with OpEmit sl op show ?thesis by (simp add: Emit_def send_def)
  next
    case OpIgnore
    then show ?thesis using sl by (simp add: Ignore_def)
  next
    case (OpMatchOne alphabet)
    then show ?thesis using n Backup_NextRune [OF n] by (simp add: MatchOne_def)
  next
    case (OpMatchMany alphabet)
    show ?thesis
    proof
      assume "exec a t = Some (Inl e)"
      with OpMatchMany have "MatchMany alphabet t = Some (Inl e)"
        by (auto split: option.splits sum.splits)
      from MatchMany_no_panic [OF this] p0 show False by simp
    qed
  next
    case (OpErrorf msg)
    then show ?thesis using op by (simp add: Errorf_def send_def)
  qed
qed

lemma steps_no_panic:
  assumes "obeys well_behaved as (False, New nm st inp)"
  shows "steps as (False, New nm st inp) \<noteq> Some (Inl e)"
proof -
  have wb: "\<And>a c. well_behaved a c \<Longrightarrow> backup_after_read a c"
    by (simp add: well_behaved_def)
  have "after_read engine_open c \<Longrightarrow> obeys well_behaved as c \<Longrightarrow> steps as c \<noteq> Some (Inl e)" for c
  proof (induction as arbitrary: c)
    case Nil
    then show ?case by simp
  next
    case (Cons a as)
    obtain p t where c: "c = (p, t)" by (cases c)
    from Cons.prems(2) have ok: "well_behaved a (p, t)" by (simp add: c)
    show ?case
    proof (cases "exec a t")
      case None
      then show ?thesis by (simp add: c)
    next
      case (Some y)
      have "exec a t \<noteq> Some (Inl e')" for e'
        by (rule exec_no_panic [OF Cons.prems(1) [unfolded c] ok])
      with Some obtain c1 where e1: "exec a t = Some (Inr c1)" by (cases y) auto
      have "after_read engine_open c1"
        by (rule exec_after_read [of engine_open well_behaved a p t c1,
              OF _ _ _ Cons.prems(1) [unfolded c] ok wb [OF ok] e1])
          (blast intro: engine_open_read engine_open_width engine_open_boundary)+
      moreover from Cons.prems(2) e1 have "obeys well_behaved as c1" by (simp add: c)
      ultimately have "steps as c1 \<noteq> Some (Inl e)" by (rule Cons.IH)
      then show ?thesis using e1 by (simp add: c)
    qed
  qed
  moreover have "after_read engine_open (False, New nm st inp)"
    by (simp add: after_read_def engine_open_def engine_ok_def New_def)
  ultimately show ?thesis using assms by blast
qed

section \<open>The claims\<close>

subsection \<open>C1: the line number of an emitted token\<close>




subsection \<open>C2: NextRune at the end of the input\<close>

text \<open>
  C2. At the end of the input, \<open>pos = len(input)\<close>, the guard \<^verbatim>\<open>t.pos > len(t.input)\<close> of
  \<^verbatim>\<open>NextRune\<close> does not fire: the decoder runs on the empty rest and \<^verbatim>\<open>NextRune\<close> returns
  \<open>RuneError\<close>, U+FFFD, a valid code point, not \<open>eof\<close>. Here on the empty input.
\<close>

theorem NextRune_end_of_input_not_eof:
  "NextRune (New [] (None :: unit option) []) = Inr (0xFFFD, New [] None [])
   \<and> ValidRune 0xFFFD \<and> eof \<noteq> 0xFFFD"
  by (simp add: NextRune_def New_def DecodeRuneInString_def RuneError_def newline_def
      ValidRune_def eof_def)

subsection \<open>C3: the line counter is never below its start\<close>

text \<open>
  C3, as the claim states it, fails: \<^verbatim>\<open>New\<close> leaves \<open>line\<close> at the zero value of its type,
  and the first token of a run carries the line 0. Here, and in the amended claim, on the
  input \<open>"ab\ncd"\<close>, split into lines with the separator ignored.
\<close>

theorem line_starts_at_zero:
  "line (New [] (None :: unit option) [CHR ''a'', CHR ''b'', CHR 0x0A, CHR ''c'', CHR ''d'']) = 0
   \<and> steps [OpNextRune, OpNextRune, OpEmit (Some (tokenType ''LINE''))]
       (False, New [] (None :: unit option) [CHR ''a'', CHR ''b'', CHR 0x0A, CHR ''c'', CHR ''d''])
     = Some (Inr (False,
         New [] None [CHR ''a'', CHR ''b'', CHR 0x0A, CHR ''c'', CHR ''d'']
           \<lparr>start := 2, pos := 2, width := 1,
            tokens := \<lparr>queue = [Token (Some (tokenType ''LINE'')) ''ab'' 0 0],
                        closed = False\<rparr>\<rparr>))"
  by code_simp

text \<open>
  C3, amended. The line counter of a newly constructed tokenizer is 0; along every run of
  operations in which \<^verbatim>\<open>Backup\<close> is called only right after a read it stays \<open>\<ge> 0\<close>, and
  every token sent to the consumer carries a line number \<open>\<ge> 0\<close>.
\<close>

theorem line_counter_nonneg:
  "line (New nm st inp) = 0
   \<and> (obeys backup_after_read as (False, New nm st inp) \<longrightarrow>
      steps as (False, New nm st inp) = Some (Inr (p, t)) \<longrightarrow>
      0 \<le> line t \<and> (\<forall>x \<in> set (queue (tokens t)). 0 \<le> tok_line x))"
proof (intro conjI impI)
  show "line (New nm st inp) = 0" by (simp add: New_def)
next
  assume "obeys backup_after_read as (False, New nm st inp)"
    and "steps as (False, New nm st inp) = Some (Inr (p, t))"
  then have ok: "engine_ok t" by (rule engine_ok_steps)
  from ok show "0 \<le> line t" by (simp add: engine_ok_def)
  from ok show "\<forall>x \<in> set (queue (tokens t)). 0 \<le> tok_line x" by (simp add: engine_ok_def)
qed

theorem line_counter_nonneg_witness:
  "line (New [] (None :: unit option) [CHR ''a'', CHR ''b'', CHR 0x0A, CHR ''c'', CHR ''d'']) = 0
   \<and> obeys backup_after_read
       [OpNextRune, OpNextRune, OpEmit (Some (tokenType ''LINE'')), OpNextRune, OpIgnore,
        OpNextRune, OpNextRune, OpEmit (Some (tokenType ''LINE''))]
       (False, New [] (None :: unit option) [CHR ''a'', CHR ''b'', CHR 0x0A, CHR ''c'', CHR ''d''])
   \<and> steps
       [OpNextRune, OpNextRune, OpEmit (Some (tokenType ''LINE'')), OpNextRune, OpIgnore,
        OpNextRune, OpNextRune, OpEmit (Some (tokenType ''LINE''))]
       (False, New [] (None :: unit option) [CHR ''a'', CHR ''b'', CHR 0x0A, CHR ''c'', CHR ''d''])
     = Some (Inr (False,
         New [] None [CHR ''a'', CHR ''b'', CHR 0x0A, CHR ''c'', CHR ''d'']
           \<lparr>start := 5, pos := 5, width := 1,
            tokens := \<lparr>queue = [Token (Some (tokenType ''LINE'')) ''ab'' 0 0,
                                 Token (Some (tokenType ''LINE'')) ''cd'' 3 2],
                        closed = False\<rparr>,
            line := 2\<rparr>))
   \<and> 0 \<le> tok_line (Token (Some (tokenType ''LINE'')) ''ab'' 0 0)
   \<and> 0 \<le> tok_line (Token (Some (tokenType ''LINE'')) ''cd'' 3 2)"
proof -
  let ?inp = "[CHR ''a'', CHR ''b'', CHR 0x0A, CHR ''c'', CHR ''d'']"
  let ?as = "[OpNextRune, OpNextRune, OpEmit (Some (tokenType ''LINE'')), OpNextRune, OpIgnore,
        OpNextRune, OpNextRune, OpEmit (Some (tokenType ''LINE''))]"
  let ?t = "New [] (None :: unit option) ?inp
           \<lparr>start := 5, pos := 5, width := 1,
            tokens := \<lparr>queue = [Token (Some (tokenType ''LINE'')) ''ab'' 0 0,
                                 Token (Some (tokenType ''LINE'')) ''cd'' 3 2],
                        closed = False\<rparr>,
            line := 2\<rparr>"
  have h1: "obeys backup_after_read ?as (False, New [] (None :: unit option) ?inp)" by code_simp
  have h2: "steps ?as (False, New [] (None :: unit option) ?inp) = Some (Inr (False, ?t))"
    by code_simp
  show ?thesis
    using h1 h2 line_counter_nonneg [of "[]" "None :: unit option" ?inp ?as False ?t]
    by simp
qed

subsection \<open>C4: Next after the driver has ended\<close>

text \<open>
  C4, as the claim states it, fails: after the driver has ended, \<^verbatim>\<open>Next\<close> returns the token
  still waiting and then the zero value of \<^verbatim>\<open>Token\<close>, whose category is nil, not \<open>EOF\<close>.
\<close>

theorem Next_after_close_not_EOF:
  "run wordGrammar (New [] (Some ()) ''a'')
     = Some (Inr (New [] None ''a''\<lparr>start := 1, pos := 1, width := 1,
          tokens := \<lparr>queue = [Token (Some (tokenType ''WORD'')) ''a'' 0 0], closed = True\<rparr>\<rparr>))
   \<and> Nexts 2 (New [] (None :: unit option) ''a''\<lparr>start := 1, pos := 1, width := 1,
          tokens := \<lparr>queue = [Token (Some (tokenType ''WORD'')) ''a'' 0 0], closed = True\<rparr>\<rparr>)
     = Some ([Token (Some (tokenType ''WORD'')) ''a'' 0 0, Token None [] 0 0],
          New [] None ''a''\<lparr>start := 1, pos := 1, oldPos := 1, width := 1,
            tokens := \<lparr>queue = [], closed = True\<rparr>\<rparr>)
   \<and> tok_typ (Token None [] 0 0) \<noteq> Some EOF"
  by (simp add: run_wordGrammar)
    (simp add: numeral_2_eq_2 Next_def recv_def New_def zeroToken_def)

text \<open>
  C4, amended. When the driver loop has ended (\<open>run\<close> has returned, the state function
  is nil and the channel is closed), no call of \<^verbatim>\<open>Next\<close> blocks: \<open>n\<close> calls in a row
  return the tokens sent and not yet received, in order, and after them the zero value of
  \<^verbatim>\<open>Token\<close>, with the nil category, the empty text, offset 0 and line 0.
\<close>

theorem Next_after_close:
  assumes "run g t = Some (Inr t')"
  shows "state t' = None \<and> closed (tokens t')
    \<and> (\<exists>u. Nexts n t' = Some (take n (queue (tokens t') @ replicate n (Token None [] 0 0)), u))"
  using run_closed [OF assms] Nexts_closed [of t' n] by (simp add: zeroToken_def)

theorem Next_after_close_witness:
  "run wordGrammar (New [] (Some ()) ''a'')
     = Some (Inr (New [] None ''a''\<lparr>start := 1, pos := 1, width := 1,
          tokens := \<lparr>queue = [Token (Some (tokenType ''WORD'')) ''a'' 0 0], closed = True\<rparr>\<rparr>))
   \<and> (\<exists>u. Nexts 3 (New [] (None :: unit option) ''a''\<lparr>start := 1, pos := 1, width := 1,
          tokens := \<lparr>queue = [Token (Some (tokenType ''WORD'')) ''a'' 0 0], closed = True\<rparr>\<rparr>)
     = Some ([Token (Some (tokenType ''WORD'')) ''a'' 0 0, Token None [] 0 0, Token None [] 0 0], u))"
  using Next_after_close [OF run_wordGrammar, of 3] run_wordGrammar
  by (simp add: New_def numeral_3_eq_3)

subsection \<open>C5: what Next and Drain touch\<close>

text \<open>
  C5. \<^verbatim>\<open>Next\<close> reads the scanning state: it executes \<^verbatim>\<open>t.oldPos = t.pos\<close>. In the state
  after the driver read and emitted \<open>a\<close>, the call returns the token of offset 0 and sets
  \<open>oldPos\<close>, which was 0, to the driver's \<open>pos\<close>, 1: not the position of the token
  returned, which the comment of the field says it holds.
\<close>

theorem Next_writes_oldPos:
  "Next (New [] (None :: unit option) ''a''\<lparr>start := 1, pos := 1, width := 1,
          tokens := \<lparr>queue = [Token (Some (tokenType ''WORD'')) ''a'' 0 0], closed = False\<rparr>\<rparr>)
     = Some (Token (Some (tokenType ''WORD'')) ''a'' 0 0,
          New [] None ''a''\<lparr>start := 1, pos := 1, oldPos := 1, width := 1,
            tokens := \<lparr>queue = [], closed = False\<rparr>\<rparr>)
   \<and> oldPos (New [] (None :: unit option) ''a''\<lparr>start := 1, pos := 1, width := 1,
          tokens := \<lparr>queue = [Token (Some (tokenType ''WORD'')) ''a'' 0 0], closed = False\<rparr>\<rparr>) = 0
   \<and> tok_pos (Token (Some (tokenType ''WORD'')) ''a'' 0 0) = 0"
  by (simp add: Next_def recv_def New_def)

text \<open>
  What the claim says of the rest holds: \<^verbatim>\<open>Next\<close> and \<^verbatim>\<open>Drain\<close> leave \<open>pos\<close>, \<open>start\<close>,
  \<open>line\<close>, \<open>width\<close> and \<open>input\<close> as they are, the token \<^verbatim>\<open>Next\<close> returns, and whether it
  returns, do not depend on the four, and \<^verbatim>\<open>Drain\<close> changes the channel only.
\<close>

lemma consumer_frame:
  "(Next t = Some (tkn, u) \<longrightarrow>
      pos u = pos t \<and> start u = start t \<and> line u = line t \<and> width u = width t
      \<and> input u = input t)
   \<and> map_option fst (Next (t\<lparr>pos := p, start := s, line := l, width := w\<rparr>))
       = map_option fst (Next t)
   \<and> (Drain t = Some v \<longrightarrow> v = t\<lparr>tokens := tokens v\<rparr>)
   \<and> Drain (t\<lparr>pos := p, start := s, line := l, width := w\<rparr>)
       = map_option (\<lambda>v. v\<lparr>pos := p, start := s, line := l, width := w\<rparr>) (Drain t)"
  by (auto simp: Next_def Drain_def split: option.splits)

subsection \<open>C6: the positional invariant\<close>

text \<open>
  C6. From a freshly constructed tokenizer, along every run of cursor, boundary and match
  operations in which \<^verbatim>\<open>Backup\<close> is called only right after a read, every state reached
  has \<open>0 \<le> start \<le> pos \<le> len(input)\<close>, over the input the tokenizer was constructed
  with. (A run is any sequence of operations, so the states reached are those after every
  operation.)
\<close>

theorem positional_invariant:
  assumes "obeys backup_after_read as (False, New nm st inp)"
    and "steps as (False, New nm st inp) = Some (Inr (p, t))"
  shows "0 \<le> start t \<and> start t \<le> pos t \<and> pos t \<le> int (length inp) \<and> input t = inp"
  using engine_ok_steps [OF assms] input_steps [OF assms] by (simp add: engine_ok_def)

text \<open>
  The run of the witness is that of a grammar for numbers on the input \<open>"12x"\<close>: it
  matches the digits, emits them, reads the \<open>x\<close>, puts it back and reports an error.
\<close>

theorem positional_invariant_witness:
  "obeys backup_after_read
     [OpMatchMany ''0123456789'', OpEmit (Some (tokenType ''NUMBER'')), OpNextRune, OpBackup,
      OpErrorf ''bad'']
     (False, New [] (None :: unit option) ''12x'')
   \<and> steps
     [OpMatchMany ''0123456789'', OpEmit (Some (tokenType ''NUMBER'')), OpNextRune, OpBackup,
      OpErrorf ''bad'']
     (False, New [] (None :: unit option) ''12x'')
     = Some (Inr (False, New [] None ''12x''\<lparr>start := 2, pos := 2, width := 1,
         tokens := \<lparr>queue = [Token (Some (tokenType ''NUMBER'')) ''12'' 0 0,
                              Token (Some Error) ''bad'' 2 0], closed = False\<rparr>\<rparr>))
   \<and> start (New [] (None :: unit option) ''12x''\<lparr>start := 2, pos := 2, width := 1,
         tokens := \<lparr>queue = [Token (Some (tokenType ''NUMBER'')) ''12'' 0 0,
                              Token (Some Error) ''bad'' 2 0], closed = False\<rparr>\<rparr>) = 2
   \<and> (0 :: int) \<le> 2
   \<and> pos (New [] (None :: unit option) ''12x''\<lparr>start := 2, pos := 2, width := 1,
         tokens := \<lparr>queue = [Token (Some (tokenType ''NUMBER'')) ''12'' 0 0,
                              Token (Some Error) ''bad'' 2 0], closed = False\<rparr>\<rparr>) = 2
   \<and> (2 :: int) \<le> int (length ''12x'')"
proof -
  let ?as = "[OpMatchMany ''0123456789'', OpEmit (Some (tokenType ''NUMBER'')), OpNextRune,
      OpBackup, OpErrorf ''bad'']"
  let ?c = "(False, New [] (None :: unit option) ''12x'')"
  let ?t = "New [] (None :: unit option) ''12x''\<lparr>start := 2, pos := 2, width := 1,
         tokens := \<lparr>queue = [Token (Some (tokenType ''NUMBER'')) ''12'' 0 0,
                              Token (Some Error) ''bad'' 2 0], closed = False\<rparr>\<rparr>"
  have h1: "obeys backup_after_read ?as ?c" by code_simp
  have h2: "steps ?as ?c = Some (Inr (False, ?t))" by code_simp
  show ?thesis using h1 h2 positional_invariant [OF h1 h2] by simp
qed

subsection \<open>C7: Backup undoes the read before it\<close>

text \<open>
  C7. Whenever \<^verbatim>\<open>NextRune\<close> returns, a \<^verbatim>\<open>Backup\<close> called right after it returns too and
  puts \<open>pos\<close> and \<open>line\<close> back to their values before the read, leaving every other field
  as the read left it: for a rune of one byte or of several, for a newline, and for the
  reads at and past the end of the input, which consume nothing.
\<close>

theorem Backup_exactness:
  assumes "NextRune t = Inr (r, t1)"
  shows "Backup t1 = Inr (t1\<lparr>pos := pos t, line := line t\<rparr>)"
proof -
  have "t1\<lparr>pos := pos t, line := line t\<rparr> = t\<lparr>width := width t1\<rparr>"
    using assms by (auto simp: NextRune_def Let_def split: if_splits)
  then show ?thesis using Backup_NextRune [OF assms] by simp
qed

theorem Backup_exactness_witness:
  "NextRune (New [] (None :: unit option) [CHR 0x0A, CHR 0xE2, CHR 0x82, CHR 0xAC])
     = Inr (newline, (New [] None [CHR 0x0A, CHR 0xE2, CHR 0x82, CHR 0xAC])\<lparr>width := 1, pos := 1, line := 1\<rparr>)
   \<and> Backup ((New [] (None :: unit option) [CHR 0x0A, CHR 0xE2, CHR 0x82, CHR 0xAC])\<lparr>width := 1, pos := 1, line := 1\<rparr>)
     = Inr ((New [] None [CHR 0x0A, CHR 0xE2, CHR 0x82, CHR 0xAC])\<lparr>width := 1, pos := 0, line := 0\<rparr>)
   \<and> NextRune ((New [] (None :: unit option) [CHR 0x0A, CHR 0xE2, CHR 0x82, CHR 0xAC])\<lparr>width := 1, pos := 1, line := 1\<rparr>)
     = Inr (0x20AC, (New [] None [CHR 0x0A, CHR 0xE2, CHR 0x82, CHR 0xAC])\<lparr>width := 3, pos := 4, line := 1\<rparr>)
   \<and> Backup ((New [] (None :: unit option) [CHR 0x0A, CHR 0xE2, CHR 0x82, CHR 0xAC])\<lparr>width := 3, pos := 4, line := 1\<rparr>)
     = Inr ((New [] None [CHR 0x0A, CHR 0xE2, CHR 0x82, CHR 0xAC])\<lparr>width := 3, pos := 1, line := 1\<rparr>)"
proof -
  let ?t = "New [] (None :: unit option) [CHR 0x0A, CHR 0xE2, CHR 0x82, CHR 0xAC]"
  have r1: "NextRune ?t = Inr (newline, ?t\<lparr>width := 1, pos := 1, line := 1\<rparr>)"
    by (simp add: NextRune_def New_def DecodeRuneInString_def byteAt_def newline_def)
  have r2: "NextRune (?t\<lparr>width := 1, pos := 1, line := 1\<rparr>)
      = Inr (0x20AC, ?t\<lparr>width := 3, pos := 4, line := 1\<rparr>)"
    by (simp add: NextRune_def New_def DecodeRuneInString_def byteAt_def newline_def
        runeSize_def acceptLo_def acceptHi_def)
  show ?thesis
    using r1 r2 Backup_exactness [OF r1] Backup_exactness [OF r2] by (simp add: New_def)
qed

subsection \<open>C8: the text of an emitted token\<close>

text \<open>
  C8. In an engine state with \<open>0 \<le> start \<le> pos \<le> len(input)\<close>, the channel not closed,
  \<^verbatim>\<open>Emit\<close> of a category sends a token whose text is the slice \<open>input[start:pos]\<close>, with
  the offset \<open>start\<close> and the current line; afterwards \<open>start = pos\<close>, and a second \<^verbatim>\<open>Emit\<close>
  with no read in between sends a token with the empty text.
\<close>

theorem Emit_slicing:
  assumes "0 \<le> start t" and "start t \<le> pos t" and "pos t \<le> int (length (input t))"
    and "\<not> closed (tokens t)"
  shows "\<exists>t1 t2.
    Emit (Some c) t = Inr t1
    \<and> queue (tokens t1) = queue (tokens t) @
          [Token (Some c) (take (nat (pos t - start t)) (drop (nat (start t)) (input t)))
             (start t) (line t)]
    \<and> start t1 = pos t1 \<and> pos t1 = pos t
    \<and> Emit (Some c') t1 = Inr t2
    \<and> queue (tokens t2) = queue (tokens t1) @ [Token (Some c') [] (pos t) (line t1)]"
  using assms by (simp add: Emit_def slice_def send_def)

theorem Emit_slicing_witness:
  "0 \<le> start (New [] (None :: unit option) ''ab''\<lparr>pos := 2\<rparr>)
   \<and> start (New [] (None :: unit option) ''ab''\<lparr>pos := 2\<rparr>) \<le> pos (New [] (None :: unit option) ''ab''\<lparr>pos := 2\<rparr>)
   \<and> pos (New [] (None :: unit option) ''ab''\<lparr>pos := 2\<rparr>) \<le> int (length (input (New [] (None :: unit option) ''ab''\<lparr>pos := 2\<rparr>)))
   \<and> \<not> closed (tokens (New [] (None :: unit option) ''ab''\<lparr>pos := 2\<rparr>))
   \<and> (\<exists>t1 t2.
    Emit (Some Error) (New [] (None :: unit option) ''ab''\<lparr>pos := 2\<rparr>) = Inr t1
    \<and> queue (tokens t1) = [Token (Some Error) ''ab'' 0 0]
    \<and> start t1 = pos t1 \<and> pos t1 = 2
    \<and> Emit (Some EOF) t1 = Inr t2
    \<and> queue (tokens t2) = queue (tokens t1) @ [Token (Some EOF) [] 2 (line t1)])"
proof -
  let ?t = "New [] (None :: unit option) ''ab''\<lparr>pos := 2\<rparr>"
  have h: "0 \<le> start ?t" "start ?t \<le> pos ?t" "pos ?t \<le> int (length (input ?t))"
    "\<not> closed (tokens ?t)"
    by (simp_all add: New_def)
  show ?thesis
    using h Emit_slicing [OF h, of Error EOF] by (simp add: New_def)
qed

subsection \<open>C9: the width Peek records\<close>

text \<open>
  C9. On the input \<open>"a"\<close>, after the \<open>a\<close> was read, \<^verbatim>\<open>Peek\<close> is at the end of the input:
  it returns U+FFFD, which is not the sentinel \<open>eof\<close>, and the width it records is 0.
\<close>

theorem Peek_end_of_input_width_zero:
  "NextRune (New [] (None :: unit option) ''a'')
     = Inr (0x61, New [] None ''a''\<lparr>pos := 1, width := 1\<rparr>)
   \<and> Peek (New [] (None :: unit option) ''a''\<lparr>pos := 1, width := 1\<rparr>)
     = Inr (0xFFFD, New [] None ''a''\<lparr>pos := 1, width := 0\<rparr>)
   \<and> eof \<noteq> 0xFFFD"
  by (simp add: Peek_def NextRune_def Backup_def New_def DecodeRuneInString_def byteAt_def
      RuneError_def newline_def eof_def)

subsection \<open>C10: termination of MatchMany\<close>

text \<open>
  C10. On the input of the one invalid byte \<open>0xFF\<close>, with the alphabet of the one rune U+FFFD
  (the bytes \<open>EF BF BD\<close>), \<^verbatim>\<open>MatchMany\<close> does not return: it reads the invalid byte as
  \<open>RuneError\<close>, which the alphabet contains, and at the end of the input every further
  \<^verbatim>\<open>NextRune\<close> returns \<open>RuneError\<close> again.
\<close>

theorem MatchMany_never_returns:
  "MatchMany [CHR 0xEF, CHR 0xBF, CHR 0xBD] (New [] (None :: unit option) [CHR 0xFF]) = None"
proof -
  let ?a = "[CHR 0xEF, CHR 0xBF, CHR 0xBD]"
  let ?t = "New [] (None :: unit option) [CHR 0xFF]"
  have c: "ContainsRune ?a RuneError"
    by (simp add: ContainsRune_def runes_replacement) (simp add: ValidRune_def RuneError_def)
  have n: "NextRune ?t = Inr (RuneError, ?t\<lparr>width := 1, pos := 1\<rparr>)"
    by (simp add: NextRune_def New_def DecodeRuneInString_def byteAt_def RuneError_def newline_def)
  have "MatchMany ?a ?t = MatchMany ?a (?t\<lparr>width := 1, pos := 1\<rparr>)"
    by (subst MatchMany.simps) (simp add: n c)
  also have "\<dots> = None"
    by (rule MatchMany_diverges [OF c]) (simp add: New_def)
  finally show ?thesis .
qed

end
